theory Spec2Isabelle
  imports Main
begin

section \<open>The middleware chain of negroni.go\<close>

text \<open>
  The chain of \<^verbatim>\<open>negroni.go\<close> is a singly linked list of \<^verbatim>\<open>middleware\<close> structs that
  are shared through pointers and mutated in place by \<^verbatim>\<open>appendMiddleware\<close>. The model
  keeps an explicit heap of nodes: an address is an index into a list of node values, a
  pointer is an optional address (\<open>None\<close> is Go's \<^verbatim>\<open>nil\<close>), and taking the address of a
  fresh value (\<^verbatim>\<open>&middleware{...}\<close>, or a local variable that escapes) appends a cell.
  A \<^verbatim>\<open>*Negroni\<close> is the address of its only field, the head node, which the struct holds
  by value.

  A handler is Go code that receives the response writer, the request and the
  continuation \<^verbatim>\<open>next\<close>. It is modelled as a function from the continuation to a
  transformer of the world \<open>'s\<close> the handlers can observe (the response writer and
  whatever their closures capture). A run-time panic is the value \<open>Inl\<close>; \<open>None\<close> is
  reserved for a serve call that exhausts its nesting budget (see
  \<open>middleware_ServeHTTP\<close>). Handlers in this model cannot reach the chain itself:
  registration during a serve call is outside the model.
\<close>

datatype error = NilDereference | InvalidAddress

type_synonym addr = nat

type_synonym 's result = "(error + 's) option"

type_synonym 's http_HandlerFunc = "'s \<Rightarrow> 's result"

type_synonym 's HandlerFunc = "'s http_HandlerFunc \<Rightarrow> 's \<Rightarrow> 's result"

text \<open>A value of the interface type \<^verbatim>\<open>Handler\<close>; \<open>None\<close> is the nil interface.\<close>

type_synonym 's Handler = "'s HandlerFunc option"

record 's middleware =
  handler :: "'s Handler"
  nextp :: "addr option"

type_synonym 's heap = "'s middleware list"

text \<open>The zero value \<^verbatim>\<open>middleware{}\<close>: nil handler, nil next.\<close>

definition zero_middleware :: "'s middleware" where
  "zero_middleware = \<lparr>handler = None, nextp = None\<rparr>"

definition alloc :: "'s heap \<Rightarrow> 's middleware \<Rightarrow> addr \<times> 's heap" where
  "alloc H v = (length H, H @ [v])"

text \<open>
  Reading through a pointer. A nil pointer panics. Go has no dangling pointers; an
  address outside the heap is reported as \<open>InvalidAddress\<close> so that the model never
  reads \<open>H ! a\<close> out of range.
\<close>

definition deref :: "'s heap \<Rightarrow> addr option \<Rightarrow> error + 's middleware" where
  "deref H p =
     (case p of
        None \<Rightarrow> Inl NilDereference
      | Some a \<Rightarrow> if a < length H then Inr (H ! a) else Inl InvalidAddress)"

definition store_handler :: "'s heap \<Rightarrow> addr option \<Rightarrow> 's Handler \<Rightarrow> error + 's heap" where
  "store_handler H p h =
     (case p of
        None \<Rightarrow> Inl NilDereference
      | Some a \<Rightarrow>
          if a < length H then Inr (H[a := (H ! a)\<lparr>handler := h\<rparr>]) else Inl InvalidAddress)"

definition store_next :: "'s heap \<Rightarrow> addr option \<Rightarrow> addr option \<Rightarrow> error + 's heap" where
  "store_next H p q =
     (case p of
        None \<Rightarrow> Inl NilDereference
      | Some a \<Rightarrow>
          if a < length H then Inr (H[a := (H ! a)\<lparr>nextp := q\<rparr>]) else Inl InvalidAddress)"

subsection \<open>voidMiddleware and isVoidMiddleware\<close>

text \<open>The anonymous function of \<^verbatim>\<open>voidMiddleware\<close>: an empty body, \<^verbatim>\<open>next\<close> is not called.\<close>

definition noop :: "'s HandlerFunc" where
  "noop = (\<lambda>next s. Some (Inr s))"

text \<open>
  \<^verbatim>\<open>return middleware{HandlerFunc(func(...) {}), &middleware{}}\<close>: the node is returned
  by value; its \<^verbatim>\<open>next\<close> points at a freshly allocated zero node.
\<close>

definition voidMiddleware :: "'s heap \<Rightarrow> 's middleware \<times> 's heap" where
  "voidMiddleware H =
     (let (z, H1) = alloc H zero_middleware
      in (\<lparr>handler = Some noop, nextp = Some z\<rparr>, H1))"

text \<open>
  \<^verbatim>\<open>if m != nil { next := m.next; if next.handler == nil && next.next == nil {...\<close>:
  for a nil \<^verbatim>\<open>m\<close> the answer is false; otherwise \<^verbatim>\<open>m.next\<close> is read and dereferenced,
  which panics when it is nil.
\<close>

definition isVoidMiddleware :: "'s heap \<Rightarrow> addr option \<Rightarrow> error + bool" where
  "isVoidMiddleware H m =
     (case m of
        None \<Rightarrow> Inr False
      | Some a \<Rightarrow>
          (case deref H (Some a) of
             Inl e \<Rightarrow> Inl e
           | Inr node \<Rightarrow>
               (case deref H (nextp node) of
                  Inl e \<Rightarrow> Inl e
                | Inr nx \<Rightarrow> Inr (Option.is_none (handler nx) \<and> Option.is_none (nextp nx)))))"

subsection \<open>build and New\<close>

text \<open>
  \<^verbatim>\<open>build\<close> returns the first node by value. Its local \<^verbatim>\<open>next\<close> escapes through
  \<^verbatim>\<open>&next\<close>, so it is a heap cell of its own; the model allocates the cell once its
  value is known. The equations follow the source's branches: no handlers, more than
  one handler, exactly one handler.
\<close>

fun build :: "'s Handler list \<Rightarrow> 's heap \<Rightarrow> 's middleware \<times> 's heap" where
  "build [] H = voidMiddleware H"
| "build (h # h' # hs) H =
     (let (nx, H1) = build (h' # hs) H;
          (a, H2) = alloc H1 nx
      in (\<lparr>handler = h, nextp = Some a\<rparr>, H2))"
| "build [h] H =
     (let (nx, H1) = voidMiddleware H;
          (a, H2) = alloc H1 nx
      in (\<lparr>handler = h, nextp = Some a\<rparr>, H2))"

text \<open>\<^verbatim>\<open>return &Negroni{middleware: build(handlers)}\<close>: the result is the address of the head.\<close>

definition New :: "'s Handler list \<Rightarrow> 's heap \<Rightarrow> addr option \<times> 's heap" where
  "New handlers H =
     (let (m, H1) = build handlers H;
          (n, H2) = alloc H1 m
      in (Some n, H2))"

subsection \<open>appendMiddleware and the registration methods\<close>

text \<open>
  The loop \<^verbatim>\<open>for !isVoidMiddleware(curr) { pre = curr; curr = curr.next }\<close>. On a cyclic
  chain it does not return, which is the value \<open>None\<close>.
\<close>

partial_function (option) appendMiddleware_loop ::
  "'s heap \<Rightarrow> addr option \<Rightarrow> addr option \<Rightarrow> (error + addr option \<times> addr option) option" where
  "appendMiddleware_loop H pre cur =
     (case isVoidMiddleware H cur of
        Inl e \<Rightarrow> Some (Inl e)
      | Inr b \<Rightarrow>
          if b then Some (Inr (pre, cur))
          else (case deref H cur of
                  Inl e \<Rightarrow> Some (Inl e)
                | Inr node \<Rightarrow> appendMiddleware_loop H cur (nextp node)))"

definition appendMiddleware :: "'s heap \<Rightarrow> addr option \<Rightarrow> 's Handler \<Rightarrow> (error + 's heap) option" where
  "appendMiddleware H m h =
     (case appendMiddleware_loop H None m of
        None \<Rightarrow> None
      | Some (Inl e) \<Rightarrow> Some (Inl e)
      | Some (Inr (pre, cur)) \<Rightarrow>
          (case pre of
             None \<Rightarrow>
               (case store_handler H m h of
                  Inl e \<Rightarrow> Some (Inl e)
                | Inr H1 \<Rightarrow>
                    (let (nx, H2) = voidMiddleware H1;
                         (a, H3) = alloc H2 nx
                     in Some (store_next H3 m (Some a))))
           | Some p \<Rightarrow>
               (let (a, H1) = alloc H \<lparr>handler = h, nextp = cur\<rparr>
                in Some (store_next H1 (Some p) (Some a)))))"

text \<open>\<^verbatim>\<open>appendMiddleware(&(n.middleware), handler)\<close>; a nil receiver panics at the field.\<close>

definition Use :: "'s heap \<Rightarrow> addr option \<Rightarrow> 's Handler \<Rightarrow> (error + 's heap) option" where
  "Use H n h =
     (case n of
        None \<Rightarrow> Some (Inl NilDereference)
      | Some a \<Rightarrow> appendMiddleware H (Some a) h)"

text \<open>
  \<^verbatim>\<open>HandlerFunc(f)\<close> as a \<^verbatim>\<open>Handler\<close>: its \<^verbatim>\<open>ServeHTTP\<close> calls \<^verbatim>\<open>f\<close>. The conversion of a nil
  function is a non-nil interface value whose call panics.
\<close>

definition HandlerFunc :: "'s HandlerFunc option \<Rightarrow> 's Handler" where
  "HandlerFunc f =
     Some (\<lambda>next s. case f of None \<Rightarrow> Some (Inl NilDereference) | Some g \<Rightarrow> g next s)"

text \<open>\<^verbatim>\<open>http.HandlerFunc(f)\<close> as an \<^verbatim>\<open>http.Handler\<close>, in the same way.\<close>

definition http_HandlerFunc :: "'s http_HandlerFunc option \<Rightarrow> 's http_HandlerFunc option" where
  "http_HandlerFunc f =
     Some (\<lambda>s. case f of None \<Rightarrow> Some (Inl NilDereference) | Some g \<Rightarrow> g s)"

text \<open>
  \<^verbatim>\<open>Wrap\<close>: the closure runs \<^verbatim>\<open>handler.ServeHTTP(rw, r)\<close> and then \<^verbatim>\<open>next(rw, r)\<close>; a panic
  of the first (or a nil \<^verbatim>\<open>handler\<close>) ends the call.
\<close>

definition Wrap :: "'s http_HandlerFunc option \<Rightarrow> 's Handler" where
  "Wrap h =
     Some (\<lambda>next s.
       case h of
         None \<Rightarrow> Some (Inl NilDereference)
       | Some g \<Rightarrow>
           (case g s of
              None \<Rightarrow> None
            | Some (Inl e) \<Rightarrow> Some (Inl e)
            | Some (Inr s') \<Rightarrow> next s'))"

definition UseFunc :: "'s heap \<Rightarrow> addr option \<Rightarrow> 's HandlerFunc option \<Rightarrow> (error + 's heap) option" where
  "UseFunc H n handlerFunc = Use H n (HandlerFunc handlerFunc)"

definition UseHandler ::
  "'s heap \<Rightarrow> addr option \<Rightarrow> 's http_HandlerFunc option \<Rightarrow> (error + 's heap) option" where
  "UseHandler H n h = Use H n (Wrap h)"

definition UseHandlerFunc ::
  "'s heap \<Rightarrow> addr option \<Rightarrow> 's http_HandlerFunc option \<Rightarrow> (error + 's heap) option" where
  "UseHandlerFunc H n handlerFunc = UseHandler H n (http_HandlerFunc handlerFunc)"

text \<open>
  A caller that registers a list of handlers one \<^verbatim>\<open>Use\<close> call after the other, as the
  tests do; a panic of one call ends the sequence.
\<close>

fun Use_all :: "'s heap \<Rightarrow> addr option \<Rightarrow> 's Handler list \<Rightarrow> (error + 's heap) option" where
  "Use_all H n [] = Some (Inr H)"
| "Use_all H n (h # hs) =
     (case Use H n h of
        None \<Rightarrow> None
      | Some (Inl e) \<Rightarrow> Some (Inl e)
      | Some (Inr H') \<Rightarrow> Use_all H' n hs)"

subsection \<open>Handlers\<close>

text \<open>
  \<^verbatim>\<open>Handlers\<close> builds its result with \<^verbatim>\<open>append\<close>, so the result lives in a backing array.
  Arrays are kept in a store of their own, apart from the nodes (Go's types keep the two
  apart). A slice is a pointer to an array, a length and a capacity. \<^verbatim>\<open>append\<close> writes
  in place while the capacity lasts and otherwise moves the elements to a new array; how
  much room the new array has is the runtime's choice, the parameter \<open>grow\<close> (the
  model takes at least the room needed).
\<close>

record slice =
  arr :: "addr option"
  len :: nat
  cap :: nat

type_synonym 's arrays = "'s Handler list list"

definition nil_slice :: slice where
  "nil_slice = \<lparr>arr = None, len = 0, cap = 0\<rparr>"

definition slice_elems :: "'s arrays \<Rightarrow> slice \<Rightarrow> 's Handler list" where
  "slice_elems A s = (case arr s of None \<Rightarrow> [] | Some b \<Rightarrow> take (len s) (A ! b))"

definition grow_slice ::
  "(nat \<Rightarrow> nat) \<Rightarrow> 's arrays \<Rightarrow> slice \<Rightarrow> 's Handler \<Rightarrow> slice \<times> 's arrays" where
  "grow_slice grow A s x =
     (let c = max (len s + 1) (grow (len s + 1))
      in (\<lparr>arr = Some (length A), len = len s + 1, cap = c\<rparr>,
          A @ [slice_elems A s @ [x] @ replicate (c - (len s + 1)) None]))"

definition append_slice ::
  "(nat \<Rightarrow> nat) \<Rightarrow> 's arrays \<Rightarrow> slice \<Rightarrow> 's Handler \<Rightarrow> slice \<times> 's arrays" where
  "append_slice grow A s x =
     (case arr s of
        None \<Rightarrow> grow_slice grow A s x
      | Some b \<Rightarrow>
          if len s < cap s
          then (s\<lparr>len := len s + 1\<rparr>, A[b := (A ! b)[len s := x]])
          else grow_slice grow A s x)"

text \<open>
  The loop of \<^verbatim>\<open>Handlers\<close>:
  \<^verbatim>\<open>for !isVoidMiddleware(curr) { handlers = append(handlers, curr.handler); curr = curr.next }\<close>.
  The function returns the stores next to the slice, so that what it leaves unchanged
  can be stated.
\<close>

partial_function (option) Handlers_loop ::
  "(nat \<Rightarrow> nat) \<Rightarrow> 's heap \<Rightarrow> 's arrays \<Rightarrow> slice \<Rightarrow> addr option \<Rightarrow>
     (error + slice \<times> 's heap \<times> 's arrays) option" where
  "Handlers_loop grow H A handlers cur =
     (case isVoidMiddleware H cur of
        Inl e \<Rightarrow> Some (Inl e)
      | Inr b \<Rightarrow>
          if b then Some (Inr (handlers, H, A))
          else (case deref H cur of
                  Inl e \<Rightarrow> Some (Inl e)
                | Inr node \<Rightarrow>
                    (case append_slice grow A handlers (handler node) of
                       (handlers', A') \<Rightarrow> Handlers_loop grow H A' handlers' (nextp node))))"

definition Handlers ::
  "(nat \<Rightarrow> nat) \<Rightarrow> 's heap \<Rightarrow> 's arrays \<Rightarrow> addr option \<Rightarrow>
     (error + slice \<times> 's heap \<times> 's arrays) option" where
  "Handlers grow H A n =
     (case n of
        None \<Rightarrow> Some (Inl NilDereference)
      | Some a \<Rightarrow> Handlers_loop grow H A nil_slice (Some a))"

text \<open>
  The invariant of the slice that \<^verbatim>\<open>Handlers\<close> builds, relative to the arrays \<open>A0\<close> that
  existed when the call began: those arrays are as they were, and the slice is nil and
  empty or points into an array allocated since, within its capacity.
\<close>

definition slice_inv :: "'s arrays \<Rightarrow> 's arrays \<Rightarrow> slice \<Rightarrow> bool" where
  "slice_inv A0 A s \<longleftrightarrow>
     take (length A0) A = A0 \<and>
     (case arr s of
        None \<Rightarrow> len s = 0
      | Some b \<Rightarrow> length A0 \<le> b \<and> b < length A \<and> length (A ! b) = cap s \<and> len s \<le> cap s)"

subsection \<open>Serving a request\<close>

text \<open>
  \<^verbatim>\<open>m.handler.ServeHTTP(rw, r, m.next.ServeHTTP)\<close>. The method has a value receiver, so
  the method value \<^verbatim>\<open>m.next.ServeHTTP\<close> reads \<^verbatim>\<open>*m.next\<close> when it is formed: a nil
  \<^verbatim>\<open>m.next\<close> panics before the handler runs, and so does a nil \<^verbatim>\<open>m.handler\<close>. The
  continuation is the same method on the node read. The first argument bounds how
  deep continuations may nest; a call that needs more returns \<open>None\<close>.
\<close>

fun middleware_ServeHTTP :: "nat \<Rightarrow> 's heap \<Rightarrow> 's middleware \<Rightarrow> 's \<Rightarrow> 's result" where
  "middleware_ServeHTTP 0 H m s = None"
| "middleware_ServeHTTP (Suc k) H m s =
     (case deref H (nextp m) of
        Inl e \<Rightarrow> Some (Inl e)
      | Inr nx \<Rightarrow>
          (case handler m of
             None \<Rightarrow> Some (Inl NilDereference)
           | Some h \<Rightarrow> h (middleware_ServeHTTP k H nx) s))"

subsection \<open>The response writer\<close>

text \<open>
  Modelled from the spec: the response wrapper, whose file (with \<^verbatim>\<open>NewResponseWriter\<close> and
  the \<^verbatim>\<open>responseWriter\<close> type) is absent from the sources. "attributes = {underlying sink,
  status code (defaults to an "unset" sentinel), byte count written}". The underlying
  \<^verbatim>\<open>http.ResponseWriter\<close> belongs to the host HTTP stack; it is recorded as the list of
  calls it has received.
\<close>

datatype sink_event = Sink_WriteHeader int | Sink_Write string

type_synonym sink = "sink_event list"

record responseWriter =
  ResponseWriter :: sink
  rw_status :: "int option"
  rw_size :: nat

text \<open>
  Modelled from the spec: \<^verbatim>\<open>NewResponseWriter\<close>, absent from the sources. "wraps raw sink
  in a fresh Response Wrapper"; the status starts at the unset sentinel and no byte has
  been written.
\<close>

definition NewResponseWriter :: "sink \<Rightarrow> responseWriter" where
  "NewResponseWriter rw = \<lparr>ResponseWriter = rw, rw_status = None, rw_size = 0\<rparr>"

text \<open>
  Modelled from the spec: the wrapper's \<^verbatim>\<open>WriteHeader\<close>, absent from the sources.
  "records C as the observed status if this is the first status-setting call for this
  request; forwards C unchanged to the underlying sink".
\<close>

definition WriteHeader :: "int \<Rightarrow> responseWriter \<Rightarrow> responseWriter" where
  "WriteHeader c w =
     w\<lparr>rw_status := (case rw_status w of None \<Rightarrow> Some c | Some c0 \<Rightarrow> Some c0),
       ResponseWriter := ResponseWriter w @ [Sink_WriteHeader c]\<rparr>"

text \<open>
  Modelled from the spec: the wrapper's \<^verbatim>\<open>Write\<close>, absent from the sources. "if no status
  has been explicitly set yet, implicitly records status 200 before forwarding;
  accumulates len(B) into the byte counter; forwards B unchanged".
\<close>

definition Write :: "string \<Rightarrow> responseWriter \<Rightarrow> responseWriter" where
  "Write b w =
     (let w1 = (case rw_status w of None \<Rightarrow> w\<lparr>rw_status := Some 200\<rparr> | Some c0 \<Rightarrow> w)
      in w1\<lparr>rw_size := rw_size w1 + length b,
            ResponseWriter := ResponseWriter w1 @ [Sink_Write b]\<rparr>)"

text \<open>Modelled from the spec: the accessors "observed status()" and "observed size()".\<close>

definition Status :: "responseWriter \<Rightarrow> int option" where
  "Status w = rw_status w"

definition Size :: "responseWriter \<Rightarrow> nat" where
  "Size w = rw_size w"

text \<open>
  \<^verbatim>\<open>n.middleware.ServeHTTP(NewResponseWriter(rw), r)\<close>. The world of the handlers is the
  wrapper together with \<open>'e\<close>, the request and what the handlers' closures capture.
\<close>

definition Negroni_ServeHTTP ::
  "nat \<Rightarrow> (responseWriter \<times> 'e) heap \<Rightarrow> addr option \<Rightarrow> sink \<Rightarrow> 'e \<Rightarrow> (responseWriter \<times> 'e) result" where
  "Negroni_ServeHTTP fuel H n rw r =
     (case deref H n of
        Inl e \<Rightarrow> Some (Inl e)
      | Inr m \<Rightarrow> middleware_ServeHTTP fuel H m (NewResponseWriter rw, r))"

subsection \<open>Callers and handlers of the tests\<close>

text \<open>
  The way the tests make a stack: \<^verbatim>\<open>n := New(hs0...)\<close> followed by \<^verbatim>\<open>n.Use(h)\<close> for each
  \<open>h\<close> of \<open>hs1\<close>. The result is the stack's address and the heap it lives in.
\<close>

definition New_then_Use ::
  "'s Handler list \<Rightarrow> 's Handler list \<Rightarrow> 's heap \<Rightarrow> (error + addr option \<times> 's heap) option" where
  "New_then_Use hs0 hs1 H0 =
     (case New hs0 H0 of
        (n, H1) \<Rightarrow>
          (case Use_all H1 n hs1 of
             None \<Rightarrow> None
           | Some (Inl e) \<Rightarrow> Some (Inl e)
           | Some (Inr H) \<Rightarrow> Some (Inr (n, H))))"

text \<open>
  The shape of the handlers of \<^verbatim>\<open>TestNegroniServeHTTP\<close>:
  \<^verbatim>\<open>result += "foo"; next(rw, r); result += "ban"\<close>. \<open>around pre post\<close> runs \<open>pre\<close>, calls
  the continuation once, and runs \<open>post\<close> when the continuation has returned; a panic of
  the continuation is not recovered. \<open>logging i\<close> is the unit that logs the token
  \<open>Enter i\<close> before and \<open>Exit i\<close> after, in a log kept beside the response writer.
\<close>

definition around :: "('s \<Rightarrow> 's) \<Rightarrow> ('s \<Rightarrow> 's) \<Rightarrow> 's HandlerFunc" where
  "around pre post =
     (\<lambda>next s.
        case next (pre s) of
          None \<Rightarrow> None
        | Some (Inl e) \<Rightarrow> Some (Inl e)
        | Some (Inr s') \<Rightarrow> Some (Inr (post s')))"

datatype token = Enter nat | Exit nat

definition log_token :: "token \<Rightarrow> 'w \<times> token list \<Rightarrow> 'w \<times> token list" where
  "log_token tk s = (fst s, snd s @ [tk])"

definition logging :: "nat \<Rightarrow> ('w \<times> token list) Handler" where
  "logging i = Some (around (log_token (Enter i)) (log_token (Exit i)))"

text \<open>
  A unit that logs \<open>Enter i\<close> and returns without calling its continuation.
\<close>

definition halting :: "nat \<Rightarrow> ('w \<times> token list) Handler" where
  "halting i = Some (\<lambda>next s. Some (Inr (log_token (Enter i) s)))"

text \<open>
  Units that write to the response writer they are handed, as the test's last handler does
  (\<^verbatim>\<open>rw.WriteHeader(http.StatusBadRequest)\<close>), and then call the continuation:
  \<open>writing c b\<close> writes the status \<open>c\<close> and then the body \<open>b\<close>; \<open>writing_body b\<close> writes
  the body \<open>b\<close> only.
\<close>

definition writing :: "int \<Rightarrow> string \<Rightarrow> (responseWriter \<times> 'e) Handler" where
  "writing c b = Some (\<lambda>next s. next (Write b (WriteHeader c (fst s)), snd s))"

definition writing_body :: "string \<Rightarrow> (responseWriter \<times> 'e) Handler" where
  "writing_body b = Some (\<lambda>next s. next (Write b (fst s), snd s))"

text \<open>
  \<^verbatim>\<open>TestNegroniServeHTTP\<close> of the repository, call by call: \<^verbatim>\<open>New()\<close>, then \<^verbatim>\<open>Use\<close>,
  \<^verbatim>\<open>UseFunc\<close>, \<^verbatim>\<open>UseHandler\<close> and \<^verbatim>\<open>UseHandlerFunc\<close> with the test's four closures, then
  \<^verbatim>\<open>ServeHTTP\<close> on a new recorder. The environment is the test's string \<^verbatim>\<open>result\<close>.
\<close>

definition TestNegroniServeHTTP :: "(responseWriter \<times> string) result" where
  "TestNegroniServeHTTP =
     (case New [] [] of
        (n, H0) \<Rightarrow>
          (case Use H0 n (HandlerFunc (Some (around (\<lambda>s. (fst s, snd s @ ''foo''))
                                                    (\<lambda>s. (fst s, snd s @ ''ban''))))) of
             Some (Inr H1) \<Rightarrow>
               (case UseFunc H1 n (Some (around (\<lambda>s. (fst s, snd s @ ''bar''))
                                                (\<lambda>s. (fst s, snd s @ ''baz'')))) of
                  Some (Inr H2) \<Rightarrow>
                    (case UseHandler H2 n
                            (http_HandlerFunc (Some (\<lambda>s. Some (Inr (fst s, snd s @ ''UseHandler''))))) of
                       Some (Inr H3) \<Rightarrow>
                         (case UseHandlerFunc H3 n
                                 (Some (\<lambda>s. Some (Inr (WriteHeader 400 (fst s), snd s @ ''bat'')))) of
                            Some (Inr H4) \<Rightarrow> Negroni_ServeHTTP 5 H4 n [] ''''
                          | _ \<Rightarrow> None)
                     | _ \<Rightarrow> None)
                | _ \<Rightarrow> None)
           | _ \<Rightarrow> None))"

subsection \<open>Well-formed chains\<close>

text \<open>
  \<open>path H a as t\<close>: following \<^verbatim>\<open>next\<close> from address \<open>a\<close> passes the nodes at the addresses
  \<open>as\<close>, in this order, and arrives at \<open>t\<close>.
\<close>

fun path :: "'s heap \<Rightarrow> addr \<Rightarrow> addr list \<Rightarrow> addr \<Rightarrow> bool" where
  "path H a [] t = (a = t)"
| "path H a (x # xs) t =
     (a = x \<and> x < length H \<and> (case nextp (H ! x) of None \<Rightarrow> False | Some b \<Rightarrow> path H b xs t))"

text \<open>
  \<open>chain H n as t z\<close>: the stack at \<open>n\<close> consists of the unit nodes \<open>as\<close>, then the node
  \<open>t\<close> that \<^verbatim>\<open>voidMiddleware\<close> made (the no-op handler), whose \<^verbatim>\<open>next\<close> is the zero node
  \<open>z\<close>; no node occurs twice.
\<close>

definition chain :: "'s heap \<Rightarrow> addr \<Rightarrow> addr list \<Rightarrow> addr \<Rightarrow> addr \<Rightarrow> bool" where
  "chain H n as t z \<longleftrightarrow>
     path H n as t \<and> t < length H \<and> handler (H ! t) = Some noop \<and> nextp (H ! t) = Some z \<and>
     z < length H \<and> H ! z = zero_middleware \<and> distinct (as @ [t, z])"

definition handlers_at :: "'s heap \<Rightarrow> addr list \<Rightarrow> 's Handler list" where
  "handlers_at H as = map (\<lambda>a. handler (H ! a)) as"

text \<open>
  What serving a chain computes, as a function of the list of its units alone: each unit
  receives the rest of the list as its continuation, and the end of the list is the
  no-op of \<^verbatim>\<open>voidMiddleware\<close>.
\<close>

fun serve_units :: "nat \<Rightarrow> 's Handler list \<Rightarrow> 's \<Rightarrow> 's result" where
  "serve_units 0 hs s = None"
| "serve_units (Suc k) [] s = Some (Inr s)"
| "serve_units (Suc k) (None # hs) s = Some (Inl NilDereference)"
| "serve_units (Suc k) (Some h # hs) s = h (serve_units k hs) s"

text \<open>
  The values the loop variable \<^verbatim>\<open>curr\<close> takes in
  \<^verbatim>\<open>for !isVoidMiddleware(curr) { ...; curr = curr.next }\<close>, the loop of both \<^verbatim>\<open>Handlers\<close>
  and \<^verbatim>\<open>appendMiddleware\<close>, when it starts at \<open>start\<close>.
\<close>

inductive visits :: "'s heap \<Rightarrow> addr option \<Rightarrow> addr option \<Rightarrow> bool" for H start where
  visits_start: "visits H start start"
| visits_next: "visits H start cur \<Longrightarrow> isVoidMiddleware H cur = Inr False \<Longrightarrow>
     deref H cur = Inr node \<Longrightarrow> visits H start (nextp node)"

section \<open>Properties\<close>

subsection \<open>Heap and chain lemmas\<close>

lemma deref_Some: "deref H (Some a) = (if a < length H then Inr (H ! a) else Inl InvalidAddress)"
  by (simp add: deref_def)

lemma deref_None: "deref H None = Inl NilDereference"
  by (simp add: deref_def)

lemma path_append: "path H a as t \<Longrightarrow> path (H @ X) a as t"
  by (induction as arbitrary: a) (auto simp: nth_append split: option.splits)

lemma path_update: "path H a as t \<Longrightarrow> p \<notin> set as \<Longrightarrow> path (H[p := v]) a as t"
  by (induction as arbitrary: a) (auto split: option.splits)

lemma path_valid: "path H a as t \<Longrightarrow> x \<in> set as \<Longrightarrow> x < length H"
  by (induction as arbitrary: a) (auto split: option.splits)

lemma path_snoc:
  "path H a (as @ [p]) t \<longleftrightarrow> path H a as p \<and> p < length H \<and> nextp (H ! p) = Some t"
  by (induction as arbitrary: a) (auto split: option.splits)

lemma isVoid_terminal:
  "t < length H \<Longrightarrow> nextp (H ! t) = Some z \<Longrightarrow> z < length H \<Longrightarrow> H ! z = zero_middleware \<Longrightarrow>
   isVoidMiddleware H (Some t) = Inr True"
  by (simp add: isVoidMiddleware_def deref_Some zero_middleware_def)

lemma isVoid_unit:
  "path H a (x # xs) t \<Longrightarrow> t < length H \<Longrightarrow> nextp (H ! t) = Some z \<Longrightarrow>
   isVoidMiddleware H (Some x) = Inr False"
  by (cases xs) (auto simp: isVoidMiddleware_def deref_Some split: option.splits)

lemma loop_path:
  "path H a as t \<Longrightarrow> t < length H \<Longrightarrow> nextp (H ! t) = Some z \<Longrightarrow> z < length H \<Longrightarrow>
   H ! z = zero_middleware \<Longrightarrow>
   appendMiddleware_loop H pre (Some a) =
     Some (Inr (if as = [] then pre else Some (last as), Some t))"
proof (induction as arbitrary: a pre)
  case Nil
  then show ?case
    by (subst appendMiddleware_loop.simps) (simp add: isVoid_terminal)
next
  case (Cons x xs)
  from Cons.prems(1) obtain b where b: "a = x" "x < length H" "nextp (H ! x) = Some b" "path H b xs t"
    by (auto split: option.splits)
  have v: "isVoidMiddleware H (Some x) = Inr False"
    using isVoid_unit[OF Cons.prems(1) Cons.prems(2) Cons.prems(3)] .
  have "appendMiddleware_loop H pre (Some x) = appendMiddleware_loop H (Some x) (Some b)"
    by (subst appendMiddleware_loop.simps) (simp add: v deref_Some b)
  also have "\<dots> = Some (Inr (if xs = [] then Some x else Some (last xs), Some t))"
    using Cons.IH[OF b(4) Cons.prems(2-5)] .
  finally show ?case using b(1) by simp
qed

lemma chain_valid: "chain H n as t z \<Longrightarrow> x \<in> set as \<Longrightarrow> x < length H"
  by (auto simp: chain_def dest: path_valid)

lemma chain_head_valid: "chain H n as t z \<Longrightarrow> n < length H"
  by (cases as) (auto simp: chain_def)

lemma handlers_at_append:
  "\<forall>x\<in>set as. x < length H \<Longrightarrow> handlers_at (H @ X) as = handlers_at H as"
  by (simp add: handlers_at_def nth_append)

lemma chain_append: "chain H n as t z \<Longrightarrow> chain (H @ X) n as t z"
  by (auto simp: chain_def nth_append path_append)

lemma chain_cons:
  assumes c: "chain H a as t z"
  shows "chain (H @ [\<lparr>handler = h, nextp = Some a\<rparr>]) (length H) (length H # as) t z \<and>
         handlers_at (H @ [\<lparr>handler = h, nextp = Some a\<rparr>]) (length H # as) = h # handlers_at H as"
proof -
  let ?m = "\<lparr>handler = h, nextp = Some a\<rparr>"
  have v: "\<forall>x\<in>set as. x < length H" using c chain_valid by blast
  have c': "chain (H @ [?m]) a as t z" using c by (rule chain_append)
  have "chain (H @ [?m]) (length H) (length H # as) t z"
    using c' v c by (auto simp: chain_def)
  moreover have "handlers_at (H @ [?m]) (length H # as) = h # handlers_at H as"
    using handlers_at_append[OF v, of "[?m]"] by (simp add: handlers_at_def)
  ultimately show ?thesis by simp
qed

lemma void_chain:
  "voidMiddleware H = (m, H1) \<Longrightarrow> chain (H1 @ [m]) (length H1) [] (length H1) (length H) \<and> length H \<le> length H1"
  by (auto simp: voidMiddleware_def alloc_def chain_def nth_append zero_middleware_def)

lemma build_chain:
  "build hs H = (m, H1) \<Longrightarrow>
   \<exists>as t z. chain (H1 @ [m]) (length H1) as t z \<and> handlers_at (H1 @ [m]) as = hs"
proof (induction hs H arbitrary: m H1 rule: build.induct)
  case (1 H)
  then show ?case using void_chain[of H m H1] by (auto simp: handlers_at_def)
next
  case (2 h h' hs H)
  obtain nx H0 where b: "build (h' # hs) H = (nx, H0)" by fastforce
  from "2.IH"[OF b] obtain as t z where c: "chain (H0 @ [nx]) (length H0) as t z"
    and hs: "handlers_at (H0 @ [nx]) as = h' # hs" by blast
  from "2.prems" b have m: "m = \<lparr>handler = h, nextp = Some (length H0)\<rparr>" and H1: "H1 = H0 @ [nx]"
    by (auto simp: alloc_def)
  show ?case using chain_cons[OF c, of h] hs unfolding m H1 by (intro exI[of _ "length (H0 @ [nx]) # as"] exI[of _ t] exI[of _ z]) simp
next
  case (3 h H)
  obtain nx H0 where b: "voidMiddleware H = (nx, H0)" by fastforce
  from void_chain[OF b] have c: "chain (H0 @ [nx]) (length H0) [] (length H0) (length H)" by simp
  from "3.prems" b have m: "m = \<lparr>handler = h, nextp = Some (length H0)\<rparr>" and H1: "H1 = H0 @ [nx]"
    by (auto simp: alloc_def)
  show ?case using chain_cons[OF c, of h] unfolding m H1
    by (intro exI[of _ "[length (H0 @ [nx])]"] exI[of _ "length H0"] exI[of _ "length H"]) (simp add: handlers_at_def)
qed

lemma New_chain:
  "\<exists>n H as t z. New hs H0 = (Some n, H) \<and> chain H n as t z \<and> handlers_at H as = hs"
proof -
  obtain m H1 where b: "build hs H0 = (m, H1)" by fastforce
  from build_chain[OF b] obtain as t z where "chain (H1 @ [m]) (length H1) as t z"
    "handlers_at (H1 @ [m]) as = hs" by blast
  then show ?thesis using b by (auto simp: New_def alloc_def)
qed

lemma append_empty:
  assumes c: "chain H n [] t z"
  shows "\<exists>H' t' z'. appendMiddleware H (Some n) h = Some (Inr H') \<and> chain H' n [n] t' z' \<and>
           handlers_at H' [n] = [h]"
proof -
  from c have t: "n < length H" "nextp (H ! n) = Some z" "z < length H"
    "H ! z = zero_middleware" by (auto simp: chain_def)
  have l: "appendMiddleware_loop H None (Some n) = Some (Inr (None, Some n))"
    using loop_path[of H n "[]" n z None] t by simp
  let ?H' = "(H[n := (H ! n)\<lparr>handler := h\<rparr>] @ [zero_middleware, \<lparr>handler = Some noop, nextp = Some (length H)\<rparr>])
               [n := (H ! n)\<lparr>handler := h, nextp := Some (Suc (length H))\<rparr>]"
  have r: "appendMiddleware H (Some n) h = Some (Inr ?H')"
    using t by (simp add: appendMiddleware_def l store_handler_def store_next_def
        voidMiddleware_def alloc_def nth_append)
  have "chain ?H' n [n] (Suc (length H)) (length H)"
    using t by (simp add: chain_def nth_append nth_list_update zero_middleware_def)
  moreover have "handlers_at ?H' [n] = [h]"
    using t by (simp add: handlers_at_def nth_append)
  ultimately show ?thesis using r by blast
qed

lemma append_nonempty:
  assumes c: "chain H n (bs @ [p]) t z"
  shows "\<exists>H'. appendMiddleware H (Some n) h = Some (Inr H') \<and>
           chain H' n (bs @ [p, length H]) t z \<and>
           handlers_at H' (bs @ [p, length H]) = handlers_at H (bs @ [p]) @ [h]"
proof -
  from c have pth: "path H n (bs @ [p]) t" and t: "t < length H" "nextp (H ! t) = Some z"
    "z < length H" "H ! z = zero_middleware" "handler (H ! t) = Some noop"
    and d: "distinct (bs @ [p, t, z])" by (auto simp: chain_def)
  from pth have pb: "path H n bs p" and p: "p < length H" "nextp (H ! p) = Some t"
    by (simp_all add: path_snoc)
  have vb: "\<forall>x\<in>set bs. x < length H" using pb path_valid by blast
  have l: "appendMiddleware_loop H None (Some n) = Some (Inr (Some p, Some t))"
    using loop_path[OF pth t(1-4), of None] by simp
  let ?new = "\<lparr>handler = h, nextp = Some t\<rparr>"
  let ?H' = "(H @ [?new])[p := (H ! p)\<lparr>nextp := Some (length H)\<rparr>]"
  have r: "appendMiddleware H (Some n) h = Some (Inr ?H')"
    using p by (simp add: appendMiddleware_def l store_next_def alloc_def nth_append)
  have p1: "path ?H' n bs p"
    using path_update[OF path_append[OF pb, of "[?new]"], of p] d by simp
  have p2: "path ?H' n (bs @ [p]) (length H)"
    using p1 p by (simp add: path_snoc)
  have p3: "path ?H' n ((bs @ [p]) @ [length H]) t"
    unfolding path_snoc[of ?H' n "bs @ [p]"] using p2 p by simp
  have nt: "t \<noteq> p" "z \<noteq> p" using d by auto
  have "chain ?H' n (bs @ [p, length H]) t z"
    using p3 t d p vb nt by (auto simp: chain_def nth_append nth_list_update)
  moreover have "handlers_at ?H' (bs @ [p, length H]) = handlers_at H (bs @ [p]) @ [h]"
    using vb p d by (auto simp: handlers_at_def nth_append nth_list_update)
  ultimately show ?thesis using r by blast
qed

lemma append_chain:
  assumes c: "chain H n as t z"
  shows "\<exists>H' as' t' z'. appendMiddleware H (Some n) h = Some (Inr H') \<and> chain H' n as' t' z' \<and>
           handlers_at H' as' = handlers_at H as @ [h]"
proof (cases as rule: rev_cases)
  case Nil
  then show ?thesis using append_empty[of H n t z h] c by (fastforce simp: handlers_at_def)
next
  case (snoc bs p)
  then show ?thesis using append_nonempty[of H n bs p t z h] c by blast
qed

lemma Use_all_chain:
  "chain H n as t z \<Longrightarrow>
   \<exists>H' as' t' z'. Use_all H (Some n) hs = Some (Inr H') \<and> chain H' n as' t' z' \<and>
     handlers_at H' as' = handlers_at H as @ hs"
proof (induction hs arbitrary: H as t z)
  case Nil
  then show ?case by auto
next
  case (Cons h hs)
  from append_chain[OF Cons.prems, of h] obtain H1 as1 t1 z1 where
    u: "appendMiddleware H (Some n) h = Some (Inr H1)" and c1: "chain H1 n as1 t1 z1"
    and h1: "handlers_at H1 as1 = handlers_at H as @ [h]" by blast
  from Cons.IH[OF c1] obtain H' as' t' z' where
    "Use_all H1 (Some n) hs = Some (Inr H')" "chain H' n as' t' z'"
    "handlers_at H' as' = handlers_at H1 as1 @ hs" by blast
  then show ?case using u h1 by (auto simp: Use_def)
qed

lemma New_then_Use_chain:
  "\<exists>n H as t z. New_then_Use hs0 hs1 H0 = Some (Inr (Some n, H)) \<and> chain H n as t z \<and>
     handlers_at H as = hs0 @ hs1"
proof -
  from New_chain[of hs0 H0] obtain n H1 as1 t1 z1 where
    n: "New hs0 H0 = (Some n, H1)" and c: "chain H1 n as1 t1 z1" and h: "handlers_at H1 as1 = hs0"
    by blast
  from Use_all_chain[OF c, of hs1] obtain H as t z where
    "Use_all H1 (Some n) hs1 = Some (Inr H)" "chain H n as t z"
    "handlers_at H as = handlers_at H1 as1 @ hs1" by blast
  then show ?thesis using n h by (auto simp: New_then_Use_def)
qed

lemma handlers_at_Cons: "handlers_at H (x # xs) = handler (H ! x) # handlers_at H xs"
  by (simp add: handlers_at_def)

lemma serve_chain:
  "chain H n as t z \<Longrightarrow> middleware_ServeHTTP k H (H ! n) = serve_units k (handlers_at H as)"
proof (induction as arbitrary: n k)
  case Nil
  then show ?case
    by (cases k) (auto simp: chain_def handlers_at_def deref_Some noop_def fun_eq_iff)
next
  case (Cons x xs)
  from Cons.prems obtain b where b: "n = x" "x < length H" "nextp (H ! x) = Some b"
    "chain H b xs t z" by (auto simp: chain_def split: option.splits)
  have bv: "b < length H" using b(4) by (rule chain_head_valid)
  show ?case
  proof (cases k)
    case 0
    then show ?thesis by (simp add: fun_eq_iff)
  next
    case (Suc j)
    have ih: "middleware_ServeHTTP j H (H ! b) = serve_units j (handlers_at H xs)"
      using Cons.IH[OF b(4)] .
    show ?thesis
    proof (rule ext)
      fix s
      show "middleware_ServeHTTP k H (H ! n) s = serve_units k (handlers_at H (x # xs)) s"
        unfolding Suc b(1) handlers_at_Cons
        by (cases rule: option.exhaust[of "handler (H ! x)"])
          (simp_all add: deref_Some b bv ih)
    qed
  qed
qed

lemma grow_slice_inv:
  assumes "slice_inv A0 A s" "grow_slice grow A s x = (s', A')"
  shows "slice_inv A0 A' s' \<and> slice_elems A' s' = slice_elems A s @ [x]"
proof -
  have l: "length (slice_elems A s) = len s"
    using assms(1) by (auto simp: slice_inv_def slice_elems_def split: option.splits)
  have t: "take (length A0) A = A0" using assms(1) by (simp add: slice_inv_def)
  have "length (take (length A0) A) = length A0" using t by simp
  then have le: "length A0 \<le> length A" by simp
  show ?thesis using assms(2) l t le
    by (auto simp: grow_slice_def slice_inv_def Let_def slice_elems_def[of "A @ _"])
qed

lemma append_slice_inv:
  assumes "slice_inv A0 A s" "append_slice grow A s x = (s', A')"
  shows "slice_inv A0 A' s' \<and> slice_elems A' s' = slice_elems A s @ [x]"
proof (cases rule: option.exhaust[of "arr s"])
  case None
  then show ?thesis using assms grow_slice_inv[of A0 A s grow x s' A']
    by (simp add: append_slice_def)
next
  case (Some b)
  show ?thesis
  proof (cases rule: case_split[of "len s < cap s"])
    case False
    then show ?thesis using assms Some grow_slice_inv[of A0 A s grow x s' A']
      by (simp add: append_slice_def)
  next
    case True
    from assms(1) Some have b: "length A0 \<le> b" "b < length A" "length (A ! b) = cap s"
      and t: "take (length A0) A = A0" by (auto simp: slice_inv_def)
    from assms(2) Some True have s': "s' = s\<lparr>len := len s + 1\<rparr>"
      and A': "A' = A[b := (A ! b)[len s := x]]" by (auto simp: append_slice_def)
    have "take (length A0) A' = A0" using t b unfolding A' by simp
    moreover have "slice_elems A' s' = slice_elems A s @ [x]"
      using b True Some unfolding A' s'
      by (simp add: slice_elems_def take_Suc_conv_app_nth)
    ultimately show ?thesis using b True Some unfolding A' s'
      by (simp add: slice_inv_def)
  qed
qed

lemma Handlers_loop_path:
  "path H a as t \<Longrightarrow> t < length H \<Longrightarrow> nextp (H ! t) = Some z \<Longrightarrow> z < length H \<Longrightarrow>
   H ! z = zero_middleware \<Longrightarrow> slice_inv A0 A s \<Longrightarrow>
   \<exists>s' A'. Handlers_loop grow H A s (Some a) = Some (Inr (s', H, A')) \<and> slice_inv A0 A' s' \<and>
     slice_elems A' s' = slice_elems A s @ handlers_at H as"
proof (induction as arbitrary: a A s)
  case Nil
  then show ?case
    by (subst Handlers_loop.simps) (simp add: isVoid_terminal handlers_at_def)
next
  case (Cons x xs)
  from Cons.prems(1) obtain b where b: "a = x" "x < length H" "nextp (H ! x) = Some b" "path H b xs t"
    by (auto split: option.splits)
  have v: "isVoidMiddleware H (Some x) = Inr False"
    using isVoid_unit[OF Cons.prems(1) Cons.prems(2) Cons.prems(3)] .
  obtain s1 A1 where ap: "append_slice grow A s (handler (H ! x)) = (s1, A1)" by fastforce
  from append_slice_inv[OF Cons.prems(6) ap] have i1: "slice_inv A0 A1 s1"
    and e1: "slice_elems A1 s1 = slice_elems A s @ [handler (H ! x)]" by simp_all
  have "Handlers_loop grow H A s (Some x) = Handlers_loop grow H A1 s1 (Some b)"
    by (subst Handlers_loop.simps) (simp add: v deref_Some b ap)
  moreover from Cons.IH[OF b(4) Cons.prems(2-5) i1] obtain s' A' where
    "Handlers_loop grow H A1 s1 (Some b) = Some (Inr (s', H, A'))" "slice_inv A0 A' s'"
    "slice_elems A' s' = slice_elems A1 s1 @ handlers_at H xs" by blast
  ultimately show ?case using e1 b(1) by (simp add: handlers_at_def)
qed

lemma Handlers_chain:
  assumes "chain H n as t z"
  shows "\<exists>s' A'. Handlers grow H A (Some n) = Some (Inr (s', H, A')) \<and> slice_inv A A' s' \<and>
           slice_elems A' s' = handlers_at H as"
proof -
  have i: "slice_inv A A nil_slice" by (simp add: slice_inv_def nil_slice_def)
  from assms have "path H n as t" "t < length H" "nextp (H ! t) = Some z" "z < length H"
    "H ! z = zero_middleware" by (auto simp: chain_def)
  from Handlers_loop_path[OF this i, of grow] show ?thesis
    by (simp add: Handlers_def slice_elems_def nil_slice_def)
qed

lemma path_succ:
  "path H n as t \<Longrightarrow> a \<in> set as \<Longrightarrow> \<exists>b. nextp (H ! a) = Some b \<and> b \<in> set (as @ [t])"
proof (induction as arbitrary: n)
  case Nil
  then show ?case by simp
next
  case (Cons x xs)
  from Cons.prems(1) obtain b where b: "n = x" "nextp (H ! x) = Some b" "path H b xs t"
    by (auto split: option.splits)
  have bm: "b \<in> set (xs @ [t])" using b(3) by (cases xs) auto
  show ?case
  proof (cases rule: case_split[of "a = x"])
    case True
    then show ?thesis using b bm by auto
  next
    case False
    then have "a \<in> set xs" using Cons.prems(2) by simp
    from Cons.IH[OF b(3) this] show ?thesis by auto
  qed
qed

lemma visits_chain:
  "visits H (Some n) cur \<Longrightarrow> chain H n as t z \<Longrightarrow> \<exists>a. cur = Some a \<and> a \<in> set (as @ [t])"
proof (induction rule: visits.induct)
  case visits_start
  then show ?case by (cases as) (auto simp: chain_def)
next
  case (visits_next cur node)
  from visits_next.IH[OF visits_next.prems] obtain a where a: "cur = Some a" "a \<in> set (as @ [t])"
    by blast
  have "isVoidMiddleware H (Some t) = Inr True"
    using visits_next.prems by (auto simp: chain_def intro: isVoid_terminal)
  then have "a \<noteq> t" using visits_next.hyps(2) a(1) by auto
  then have m: "a \<in> set as" using a(2) by simp
  then have av: "a < length H" using visits_next.prems chain_valid by blast
  then have "node = H ! a" using visits_next.hyps(3) a(1) by (simp add: deref_Some)
  moreover have "path H n as t" using visits_next.prems by (simp add: chain_def)
  ultimately show ?case using path_succ[OF _ m] by blast
qed

lemma Negroni_serve_chain:
  "chain H n as t z \<Longrightarrow>
   Negroni_ServeHTTP fuel H (Some n) rw r = serve_units fuel (handlers_at H as) (NewResponseWriter rw, r)"
  using serve_chain[of H n as t z fuel] chain_head_valid[of H n as t z]
  by (simp add: Negroni_ServeHTTP_def deref_Some)

lemma serve_units_logging_prefix:
  "serve_units (length ids + k) (map logging ids @ rest) (w, l) =
     (case serve_units k rest (w, l @ map Enter ids) of
        None \<Rightarrow> None
      | Some (Inl e) \<Rightarrow> Some (Inl e)
      | Some (Inr s') \<Rightarrow> Some (Inr (fst s', snd s' @ map Exit (rev ids))))"
proof (induction ids arbitrary: l)
  case Nil
  show ?case by (simp split: option.splits sum.splits)
next
  case (Cons i ids)
  show ?case using Cons.IH[of "l @ [Enter i]"]
    by (simp add: logging_def around_def log_token_def split: option.splits sum.splits)
qed

lemma serve_units_logging:
  "serve_units (Suc (length ids + k)) (map logging ids) (w, l) =
     Some (Inr (w, l @ map Enter ids @ map Exit (rev ids)))"
  using serve_units_logging_prefix[of ids "Suc k" "[]" w l] by simp

lemma serve_units_stop:
  "\<forall>c c'. h c = h c' \<Longrightarrow> serve_units k (us @ Some h # vs) = serve_units k (us @ [Some h])"
proof (induction us arbitrary: k)
  case Nil
  then show ?case by (cases k) (auto simp: fun_eq_iff)
next
  case (Cons u us)
  show ?case
  proof (cases k)
    case 0
    then show ?thesis by (simp add: fun_eq_iff)
  next
    case (Suc j)
    have ih: "serve_units j (us @ Some h # vs) = serve_units j (us @ [Some h])"
      using Cons.IH[OF Cons.prems] .
    show ?thesis unfolding Suc by (rule ext, cases u) (simp_all add: ih)
  qed
qed

lemma New_then_Use_split:
  "\<exists>n H as t z. New_then_Use (take j hs) (drop j hs) H0 = Some (Inr (Some n, H)) \<and>
     chain H n as t z \<and> handlers_at H as = hs"
  using New_then_Use_chain[of "take j hs" "drop j hs" H0] by simp

lemma middleware_update_both:
  "(m :: 's middleware)\<lparr>handler := h, nextp := q\<rparr> = \<lparr>handler = h, nextp = q\<rparr>"
  by (cases m) simp

lemma append_empty_result:
  assumes c: "chain H n [] t z"
  shows "appendMiddleware H (Some n) h =
           Some (Inr (H[n := \<lparr>handler = h, nextp = Some (Suc (length H))\<rparr>] @
                      [zero_middleware, \<lparr>handler = Some noop, nextp = Some (length H)\<rparr>]))"
proof -
  from c have t: "n < length H" "nextp (H ! n) = Some z" "z < length H"
    "H ! z = zero_middleware" by (auto simp: chain_def)
  have l: "appendMiddleware_loop H None (Some n) = Some (Inr (None, Some n))"
    using loop_path[of H n "[]" n z None] t by simp
  show ?thesis
    using t by (simp add: appendMiddleware_def l store_handler_def store_next_def
        voidMiddleware_def alloc_def nth_append list_update_append middleware_update_both)
qed

lemma append_nonempty_result:
  assumes c: "chain H n as t z" and ne: "as \<noteq> []"
  shows "appendMiddleware H (Some n) h =
           Some (Inr ((H @ [\<lparr>handler = h, nextp = Some t\<rparr>])
                        [last as := (H ! last as)\<lparr>nextp := Some (length H)\<rparr>]))"
proof -
  from c have pth: "path H n as t" and t: "t < length H" "nextp (H ! t) = Some z"
    "z < length H" "H ! z = zero_middleware" by (auto simp: chain_def)
  have p: "last as < length H" using ne c chain_valid[of H n as t z "last as"] by simp
  have l: "appendMiddleware_loop H None (Some n) = Some (Inr (Some (last as), Some t))"
    using loop_path[OF pth t(1-4), of None] ne by simp
  show ?thesis
    using p by (simp add: appendMiddleware_def l store_next_def alloc_def nth_append)
qed

lemma chain_loop:
  "chain H n as t z \<Longrightarrow>
   appendMiddleware_loop H None (Some n) =
     Some (Inr (if as = [] then None else Some (last as), Some t))"
  using loop_path[of H n as t z None] by (simp add: chain_def)

lemma chain_isVoid_unit:
  assumes c: "chain H n as t z" and a: "a \<in> set as"
  shows "isVoidMiddleware H (Some a) = Inr False"
proof -
  from c have pth: "path H n as t" and t: "t < length H" "nextp (H ! t) = Some z"
    by (auto simp: chain_def)
  from path_succ[OF pth a] obtain b where b: "nextp (H ! a) = Some b" "b \<in> set (as @ [t])"
    by blast
  have av: "a < length H" using path_valid[OF pth a] .
  have bv: "b < length H" using b(2) t(1) path_valid[OF pth] by auto
  have "nextp (H ! b) \<noteq> None"
    using b(2) t(2) path_succ[OF pth, of b] by auto
  then show ?thesis using av bv b(1) by (auto simp: isVoidMiddleware_def deref_Some)
qed

lemma chain_isVoid_terminal: "chain H n as t z \<Longrightarrow> isVoidMiddleware H (Some t) = Inr True"
  by (auto simp: chain_def intro: isVoid_terminal)

lemma chain_one_terminal:
  assumes c: "chain H n as t z"
  shows "filter (\<lambda>a. isVoidMiddleware H (Some a) = Inr True) (as @ [t]) = [t]"
proof -
  have "filter (\<lambda>a. isVoidMiddleware H (Some a) = Inr True) as = []"
    using chain_isVoid_unit[OF c] by (simp add: filter_empty_conv)
  then show ?thesis using chain_isVoid_terminal[OF c] by simp
qed

lemma slice_inv_len: "slice_inv A0 A s \<Longrightarrow> length (slice_elems A s) = len s"
  by (auto simp: slice_inv_def slice_elems_def split: option.splits)

lemma slice_inv_fresh:
  "slice_inv A0 A s \<Longrightarrow>
   take (length A0) A = A0 \<and> (case arr s of None \<Rightarrow> True | Some b \<Rightarrow> length A0 \<le> b \<and> b < length A)"
  by (auto simp: slice_inv_def split: option.splits)

lemma Handlers_empty:
  "chain H n [] t z \<Longrightarrow> Handlers grow H A (Some n) = Some (Inr (nil_slice, H, A))"
  unfolding Handlers_def
  by (subst Handlers_loop.simps) (auto simp: chain_def simp: isVoid_terminal)



lemma chain_node_next:
  assumes c: "chain H n as t z" and a: "a \<in> set (as @ [t])"
  shows "\<exists>m nx. deref H (Some a) = Inr m \<and> nextp m \<noteq> None \<and> deref H (nextp m) = Inr nx"
proof -
  from c have pth: "path H n as t" and t: "t < length H" "nextp (H ! t) = Some z" "z < length H"
    by (auto simp: chain_def)
  show ?thesis
  proof (cases rule: case_split[of "a = t"])
    case True
    then show ?thesis using t by (simp add: deref_Some)
  next
    case False
    then have m: "a \<in> set as" using a by simp
    from path_succ[OF pth m] obtain b where b: "nextp (H ! a) = Some b" "b \<in> set (as @ [t])"
      by blast
    have "b < length H" using b(2) t(1) path_valid[OF pth] by auto
    then show ?thesis using b(1) path_valid[OF pth m] by (simp add: deref_Some)
  qed
qed

lemma serve_units_writing:
  "serve_units (Suc (Suc (length ids0 + length ids1 + k)))
       (map logging ids0 @ writing c b # map logging ids1) (w, l) =
     Some (Inr (Write b (WriteHeader c w),
                l @ map Enter (ids0 @ ids1) @ map Exit (rev (ids0 @ ids1))))"
proof -
  have "serve_units (Suc (Suc (length ids1 + k))) (writing c b # map logging ids1) (w, l') =
          Some (Inr (Write b (WriteHeader c w), l' @ map Enter ids1 @ map Exit (rev ids1)))"
    for l'
    using serve_units_logging[of ids1 k "Write b (WriteHeader c w)" l']
    by (simp add: writing_def)
  then show ?thesis
    using serve_units_logging_prefix[of ids0 "Suc (Suc (length ids1 + k))"
        "writing c b # map logging ids1" w l]
    by (simp add: add.assoc)
qed

lemma serve_units_around:
  "serve_units (Suc (length ps + k)) (map (\<lambda>p. Some (around (fst p) (snd p))) ps) s =
     Some (Inr (foldr snd ps (fold fst ps s)))"
proof (induction ps arbitrary: s)
  case Nil
  show ?case by simp
next
  case (Cons p ps)
  show ?case using Cons.IH[of "fst p s"] by (simp add: around_def)
qed

subsection \<open>The repository's test\<close>

text \<open>
  The model computes what \<^verbatim>\<open>TestNegroniServeHTTP\<close> expects: the string
  \<^verbatim>\<open>"foobarUseHandlerbatbazban"\<close> and the response code 400.
\<close>

lemma replay_TestNegroniServeHTTP:
  "TestNegroniServeHTTP =
     Some (Inr (\<lparr>ResponseWriter = [Sink_WriteHeader 400], rw_status = Some 400, rw_size = 0\<rparr>,
                ''foobarUseHandlerbatbazban''))"
  by (simp add: TestNegroniServeHTTP_def New_def Use_def UseFunc_def UseHandler_def
      UseHandlerFunc_def HandlerFunc_def http_HandlerFunc_def Wrap_def around_def
      appendMiddleware_def appendMiddleware_loop.simps
      voidMiddleware_def alloc_def isVoidMiddleware_def deref_def store_handler_def store_next_def
      zero_middleware_def Negroni_ServeHTTP_def eval_nat_numeral
      NewResponseWriter_def WriteHeader_def noop_def)

subsection \<open>Onion order\<close>

text \<open>
  C1. A stack is made by \<^verbatim>\<open>New\<close> from some units and extended by \<^verbatim>\<open>Use\<close> with further units,
  all of which run some code, call their continuation once and run some more code.
  Registration succeeds, and serving a request with a nesting budget above the number
  of units returns normally. When every unit logs its enter token before and its exit
  token after the call, the log is extended by the enter tokens in registration order
  followed by the exit tokens in reverse registration order, and the response wrapper is
  the fresh one, untouched. In general, for units \<open>around pre post\<close> with any code
  \<open>pre\<close> and \<open>post\<close>, the final world is the initial one after every \<open>pre\<close> in
  registration order (\<open>fold fst\<close>) and then every \<open>post\<close> in reverse registration order
  (\<open>foldr snd\<close> applies the last unit's \<open>post\<close> first).
\<close>

theorem C1_onion_order:
  "(\<exists>n H. New_then_Use (map logging ids0) (map logging ids1) H0 = Some (Inr (n, H)) \<and>
     (\<forall>k. Negroni_ServeHTTP (Suc (length (ids0 @ ids1) + k)) H n rw l =
            Some (Inr (NewResponseWriter rw,
                       l @ map Enter (ids0 @ ids1) @ map Exit (rev (ids0 @ ids1)))))) \<and>
   (\<exists>n H. New_then_Use (map (\<lambda>p. Some (around (fst p) (snd p))) ps0)
                        (map (\<lambda>p. Some (around (fst p) (snd p))) ps1) G0 = Some (Inr (n, H)) \<and>
     (\<forall>k. Negroni_ServeHTTP (Suc (length (ps0 @ ps1) + k)) H n rw' r =
            Some (Inr (foldr snd (ps0 @ ps1) (fold fst (ps0 @ ps1) (NewResponseWriter rw', r))))))"
proof -
  from New_then_Use_chain[of "map logging ids0" "map logging ids1" H0]
  obtain n H as t z where
    r: "New_then_Use (map logging ids0) (map logging ids1) H0 = Some (Inr (Some n, H))"
    and c: "chain H n as t z" and h: "handlers_at H as = map logging (ids0 @ ids1)"
    by auto
  have "Negroni_ServeHTTP (Suc (length (ids0 @ ids1) + k)) H (Some n) rw l =
          Some (Inr (NewResponseWriter rw,
                     l @ map Enter (ids0 @ ids1) @ map Exit (rev (ids0 @ ids1))))" for k
    unfolding Negroni_serve_chain[OF c] h by (rule serve_units_logging)
  then have A: "\<exists>n H. New_then_Use (map logging ids0) (map logging ids1) H0 = Some (Inr (n, H)) \<and>
     (\<forall>k. Negroni_ServeHTTP (Suc (length (ids0 @ ids1) + k)) H n rw l =
            Some (Inr (NewResponseWriter rw,
                       l @ map Enter (ids0 @ ids1) @ map Exit (rev (ids0 @ ids1)))))"
    using r by blast
  let ?u = "\<lambda>p. Some (around (fst p) (snd p))"
  from New_then_Use_chain[of "map ?u ps0" "map ?u ps1" G0]
  obtain m G bs u y where
    q: "New_then_Use (map ?u ps0) (map ?u ps1) G0 = Some (Inr (Some m, G))"
    and d: "chain G m bs u y" and g: "handlers_at G bs = map ?u (ps0 @ ps1)"
    by auto
  have "Negroni_ServeHTTP (Suc (length (ps0 @ ps1) + k)) G (Some m) rw' r =
          Some (Inr (foldr snd (ps0 @ ps1) (fold fst (ps0 @ ps1) (NewResponseWriter rw', r))))"
    for k
    unfolding Negroni_serve_chain[OF d] g by (rule serve_units_around)
  then have B: "\<exists>n H. New_then_Use (map ?u ps0) (map ?u ps1) G0 = Some (Inr (n, H)) \<and>
     (\<forall>k. Negroni_ServeHTTP (Suc (length (ps0 @ ps1) + k)) H n rw' r =
            Some (Inr (foldr snd (ps0 @ ps1) (fold fst (ps0 @ ps1) (NewResponseWriter rw', r)))))"
    using q by blast
  from A B show ?thesis by (intro conjI)
qed

theorem C1_onion_order_witness:
  "(\<exists>n H. New_then_Use (map logging [1, 2]) (map logging [3]) [] = Some (Inr (n, H)) \<and>
     (\<forall>k. Negroni_ServeHTTP (Suc (Suc (Suc (Suc k)))) H n [] [] =
            Some (Inr (NewResponseWriter [],
                       [Enter 1, Enter 2, Enter 3, Exit 3, Exit 2, Exit 1])))) \<and>
   (\<exists>n H. New_then_Use [Some (around (\<lambda>s. (fst s, snd s @ ''foo'')) (\<lambda>s. (fst s, snd s @ ''ban'')))]
                        [Some (around (\<lambda>s. (fst s, snd s @ ''bar'')) (\<lambda>s. (fst s, snd s @ ''baz'')))]
                        [] = Some (Inr (n, H)) \<and>
     (\<forall>k. Negroni_ServeHTTP (Suc (Suc (Suc k))) H n [] [] =
            Some (Inr (NewResponseWriter [], ''foobarbazban''))))"
  using C1_onion_order[of "[1, 2]" "[3]" "[]" "[]" "[]"
      "[(\<lambda>s. (fst s, snd s @ ''foo''), \<lambda>s. (fst s, snd s @ ''ban''))]"
      "[(\<lambda>s. (fst s, snd s @ ''bar''), \<lambda>s. (fst s, snd s @ ''baz''))]" "[]" "[]" "[]"]
  by simp

subsection \<open>Short circuit\<close>

text \<open>
  C2. Let the registered units be \<open>us\<close>, then a unit whose body does not use its
  continuation, then \<open>vs\<close>, registered through \<^verbatim>\<open>New\<close> and \<^verbatim>\<open>Use\<close> in any split \<open>j\<close>.
  Serving a request on this stack gives, for every nesting budget and every input, the
  result of the stack that ends at that unit: whatever \<open>vs\<close> holds (units that log,
  write or panic, in any number) has no effect. With logging units before a unit that
  logs its enter token and returns, the log is the enter tokens up to that unit
  followed by the exit tokens of the units before it, and the budget needed does not
  depend on \<open>vs\<close>. The no-op of \<^verbatim>\<open>voidMiddleware\<close> does not use its continuation either.
\<close>

theorem C2_short_circuit:
  "(\<exists>n H n' H'.
      New_then_Use (take j (us @ Some (\<lambda>next. body) # vs))
                   (drop j (us @ Some (\<lambda>next. body) # vs)) H0 = Some (Inr (n, H)) \<and>
      New_then_Use (us @ [Some (\<lambda>next. body)]) [] H0' = Some (Inr (n', H')) \<and>
      (\<forall>fuel rw (r :: 'e).
         Negroni_ServeHTTP fuel H n rw r = Negroni_ServeHTTP fuel H' n' rw r)) \<and>
   (\<exists>n H.
      New_then_Use (take j' (map logging ids @ halting i # ws))
                   (drop j' (map logging ids @ halting i # ws)) H1 = Some (Inr (n, H)) \<and>
      (\<forall>k. Negroni_ServeHTTP (Suc (length ids + k)) H n rw l =
             Some (Inr (NewResponseWriter rw, l @ map Enter ids @ [Enter i] @ map Exit (rev ids))))) \<and>
   (\<forall>c c' (s :: responseWriter \<times> 'e). noop c s = noop c' s)"
proof -
  let ?h = "Some (\<lambda>next. body)"
  let ?units = "us @ ?h # vs"
  from New_then_Use_split[of j ?units H0] obtain n H as t z where
    r: "New_then_Use (take j ?units) (drop j ?units) H0 = Some (Inr (Some n, H))"
    and c: "chain H n as t z" and h: "handlers_at H as = ?units" by blast
  from New_then_Use_chain[of "us @ [?h]" "[]" H0'] obtain n' H' as' t' z' where
    r': "New_then_Use (us @ [?h]) [] H0' = Some (Inr (Some n', H'))"
    and c': "chain H' n' as' t' z'" and h': "handlers_at H' as' = us @ [?h]" by auto
  have "Negroni_ServeHTTP fuel H (Some n) rw r = Negroni_ServeHTTP fuel H' (Some n') rw r"
    for fuel rw r
    unfolding Negroni_serve_chain[OF c] Negroni_serve_chain[OF c'] h h'
    using serve_units_stop[of "\<lambda>next. body" fuel us vs] by simp
  then have A: "\<exists>n H n' H'.
      New_then_Use (take j ?units) (drop j ?units) H0 = Some (Inr (n, H)) \<and>
      New_then_Use (us @ [?h]) [] H0' = Some (Inr (n', H')) \<and>
      (\<forall>fuel rw r. Negroni_ServeHTTP fuel H n rw r = Negroni_ServeHTTP fuel H' n' rw r)"
    using r r' by blast
  let ?logs = "map logging ids @ halting i # ws"
  from New_then_Use_split[of j' ?logs H1] obtain m G bs u y where
    q: "New_then_Use (take j' ?logs) (drop j' ?logs) H1 = Some (Inr (Some m, G))"
    and d: "chain G m bs u y" and g: "handlers_at G bs = ?logs" by blast
  have "Negroni_ServeHTTP (Suc (length ids + k)) G (Some m) rw l =
          Some (Inr (NewResponseWriter rw, l @ map Enter ids @ [Enter i] @ map Exit (rev ids)))"
    for k
    unfolding Negroni_serve_chain[OF d] g
    using serve_units_logging_prefix[of ids "Suc k" "halting i # ws" "NewResponseWriter rw" l]
    by (simp add: halting_def log_token_def)
  then have B: "\<exists>n H.
      New_then_Use (take j' ?logs) (drop j' ?logs) H1 = Some (Inr (n, H)) \<and>
      (\<forall>k. Negroni_ServeHTTP (Suc (length ids + k)) H n rw l =
             Some (Inr (NewResponseWriter rw, l @ map Enter ids @ [Enter i] @ map Exit (rev ids))))"
    using q by blast
  have C: "\<forall>c c' (s :: responseWriter \<times> 'e). noop c s = noop c' s" by (simp add: noop_def)
  from A B C show ?thesis by blast
qed

theorem C2_short_circuit_witness:
  "(\<exists>n H n' H'.
      New_then_Use [logging 1] [Some (\<lambda>next. (\<lambda>s. Some (Inr s))), None, logging 2] [] =
        Some (Inr (n, H)) \<and>
      New_then_Use [logging 1, Some (\<lambda>next. (\<lambda>s. Some (Inr s)))] [] [] = Some (Inr (n', H')) \<and>
      (\<forall>fuel rw r. Negroni_ServeHTTP fuel H n rw r = Negroni_ServeHTTP fuel H' n' rw r)) \<and>
   (\<exists>n H.
      New_then_Use [] [logging 1, logging 2, halting 3, None, logging 4] [] = Some (Inr (n, H)) \<and>
      (\<forall>k. Negroni_ServeHTTP (Suc (Suc (Suc k))) H n [] [] =
             Some (Inr (NewResponseWriter [], [Enter 1, Enter 2, Enter 3, Exit 2, Exit 1])))) \<and>
   (\<forall>c c' (s :: responseWriter \<times> token list). noop c s = noop c' s)"
  using C2_short_circuit[of 1 "[logging 1]" "\<lambda>s. Some (Inr s)" "[None, logging 2]" "[]" "[]"
      0 "[1, 2]" 3 "[None, logging 4]" "[]" "[]" "[]"]
  by simp

subsection \<open>Append after build\<close>

text \<open>
  C3. For all lists of units \<open>hs0\<close> and \<open>hs1\<close> (nil units included): building the chain
  from \<open>hs0\<close> and appending the units of \<open>hs1\<close> one by one, and building the chain from
  \<open>hs0 @ hs1\<close> at once, both succeed and give stacks on which serving a request returns
  the same result (the same final world, the same panic, or the same exhaustion of the
  budget), for every budget, sink and environment. A chain built from \<open>[A, B]\<close> and
  extended by \<open>C\<close> is the case \<open>hs0 = [A, B]\<close>, \<open>hs1 = [C]\<close>.
\<close>

theorem C3_append_after_build:
  "\<exists>n H n' H'.
     New_then_Use hs0 hs1 H0 = Some (Inr (n, H)) \<and>
     New_then_Use (hs0 @ hs1) [] H0' = Some (Inr (n', H')) \<and>
     (\<forall>fuel rw r. Negroni_ServeHTTP fuel H n rw r = Negroni_ServeHTTP fuel H' n' rw r)"
proof -
  from New_then_Use_chain[of hs0 hs1 H0] obtain n H as t z where
    r: "New_then_Use hs0 hs1 H0 = Some (Inr (Some n, H))"
    and c: "chain H n as t z" and h: "handlers_at H as = hs0 @ hs1" by blast
  from New_then_Use_chain[of "hs0 @ hs1" "[]" H0'] obtain n' H' as' t' z' where
    r': "New_then_Use (hs0 @ hs1) [] H0' = Some (Inr (Some n', H'))"
    and c': "chain H' n' as' t' z'" and h': "handlers_at H' as' = hs0 @ hs1" by auto
  have "Negroni_ServeHTTP fuel H (Some n) rw r = Negroni_ServeHTTP fuel H' (Some n') rw r"
    for fuel rw r
    unfolding Negroni_serve_chain[OF c] Negroni_serve_chain[OF c'] h h' ..
  then show ?thesis using r r' by blast
qed

theorem C3_append_after_build_witness:
  "\<exists>n H n' H'.
     New_then_Use [logging 1, logging 2] [logging 3] [] = Some (Inr (n, H)) \<and>
     New_then_Use [logging 1, logging 2, logging 3] [] [] = Some (Inr (n', H')) \<and>
     (\<forall>fuel rw r. Negroni_ServeHTTP fuel H n rw r = Negroni_ServeHTTP fuel H' n' rw r)"
  using C3_append_after_build[of "[logging 1, logging 2]" "[logging 3]" "[]" "[]"] by simp

subsection \<open>The shape of append\<close>

text \<open>
  C4, as stated, at the empty stack that \<^verbatim>\<open>New()\<close> makes on an empty heap: the walk of
  \<^verbatim>\<open>appendMiddleware\<close> ends at the head with \<^verbatim>\<open>pre\<close> nil, and the head's handler is the
  no-op of \<^verbatim>\<open>voidMiddleware\<close>, not an unset handler; the node at which the walk ends has
  a handler and a non-nil \<^verbatim>\<open>next\<close> (it is its successor that has neither).
\<close>

theorem C4_counterexample:
  "New [] ([] :: unit heap) =
     (Some 1, [zero_middleware, \<lparr>handler = Some noop, nextp = Some 0\<rparr>]) \<and>
   appendMiddleware_loop ([zero_middleware, \<lparr>handler = Some noop, nextp = Some 0\<rparr>] :: unit heap)
       None (Some 1) = Some (Inr (None, Some 1)) \<and>
   handler (([zero_middleware, \<lparr>handler = Some noop, nextp = Some 0\<rparr>] :: unit heap) ! 1) \<noteq> None \<and>
   nextp (([zero_middleware, \<lparr>handler = Some noop, nextp = Some 0\<rparr>] :: unit heap) ! 1) \<noteq> None"
  by (subst appendMiddleware_loop.simps)
    (simp add: New_def voidMiddleware_def alloc_def isVoidMiddleware_def deref_def
      zero_middleware_def)

text \<open>
  C4, amended. On every stack made by \<^verbatim>\<open>New\<close> and \<^verbatim>\<open>Use\<close>, with unit nodes \<open>as\<close>, the node
  \<open>t\<close> of \<^verbatim>\<open>voidMiddleware\<close> (the only one for which \<^verbatim>\<open>isVoidMiddleware\<close> holds, because
  its successor is the zero node) and the zero node \<open>z\<close>: the walk of \<^verbatim>\<open>appendMiddleware\<close>
  ends at \<open>t\<close>, with \<^verbatim>\<open>pre\<close> nil when there is no unit (then \<open>t\<close> is the head itself) and
  \<^verbatim>\<open>pre\<close> the last unit node otherwise. In the first case the head is overwritten in
  place with the new unit and a \<^verbatim>\<open>next\<close> that points at a new \<^verbatim>\<open>voidMiddleware\<close> node with
  a new zero node; in the second case one new node is allocated, holding the unit and
  pointing at the existing \<open>t\<close>, and only the \<^verbatim>\<open>next\<close> of the last unit node changes.
\<close>

theorem C4_append_shape:
  "\<exists>n H as t z.
     New_then_Use hs0 hs1 H0 = Some (Inr (Some n, H)) \<and>
     chain H n as t z \<and> handlers_at H as = hs0 @ hs1 \<and>
     (if as = [] then n = t else n = hd as) \<and>
     isVoidMiddleware H (Some t) = Inr True \<and>
     appendMiddleware_loop H None (Some n) =
       Some (Inr (if as = [] then None else Some (last as), Some t)) \<and>
     appendMiddleware H (Some n) h =
       Some (Inr (if as = []
                  then H[n := \<lparr>handler = h, nextp = Some (Suc (length H))\<rparr>] @
                       [zero_middleware, \<lparr>handler = Some noop, nextp = Some (length H)\<rparr>]
                  else (H @ [\<lparr>handler = h, nextp = Some t\<rparr>])
                         [last as := (H ! last as)\<lparr>nextp := Some (length H)\<rparr>]))"
proof -
  from New_then_Use_chain[of hs0 hs1 H0] obtain n H as t z where
    r: "New_then_Use hs0 hs1 H0 = Some (Inr (Some n, H))"
    and c: "chain H n as t z" and h: "handlers_at H as = hs0 @ hs1" by blast
  have "appendMiddleware H (Some n) h =
       Some (Inr (if as = []
                  then H[n := \<lparr>handler = h, nextp = Some (Suc (length H))\<rparr>] @
                       [zero_middleware, \<lparr>handler = Some noop, nextp = Some (length H)\<rparr>]
                  else (H @ [\<lparr>handler = h, nextp = Some t\<rparr>])
                         [last as := (H ! last as)\<lparr>nextp := Some (length H)\<rparr>]))"
    using append_empty_result[of H n t z h] append_nonempty_result[of H n as t z h] c
    by (cases as) simp_all
  moreover have "if as = [] then n = t else n = hd as"
    using c by (cases as) (simp_all add: chain_def)
  ultimately show ?thesis using r c h chain_loop[OF c] chain_isVoid_terminal[OF c] by blast
qed

theorem C4_append_shape_witness:
  "\<exists>n H as t z.
     New_then_Use [(logging 1 :: (responseWriter \<times> token list) Handler)] [logging 2] [] = Some (Inr (Some n, H)) \<and>
     chain H n as t z \<and> handlers_at H as = [logging 1] @ [logging 2] \<and>
     (if as = [] then n = t else n = hd as) \<and>
     isVoidMiddleware H (Some t) = Inr True \<and>
     appendMiddleware_loop H None (Some n) =
       Some (Inr (if as = [] then None else Some (last as), Some t)) \<and>
     appendMiddleware H (Some n) (logging 3) =
       Some (Inr (if as = []
                  then H[n := \<lparr>handler = logging 3, nextp = Some (Suc (length H))\<rparr>] @
                       [zero_middleware, \<lparr>handler = Some noop, nextp = Some (length H)\<rparr>]
                  else (H @ [\<lparr>handler = logging 3, nextp = Some t\<rparr>])
                         [last as := (H ! last as)\<lparr>nextp := Some (length H)\<rparr>]))"
  by (rule C4_append_shape)

subsection \<open>The chain invariant\<close>

text \<open>
  C5. After \<^verbatim>\<open>New\<close> with any units \<open>hs0\<close> and any sequence of \<^verbatim>\<open>Use\<close> calls with units
  \<open>hs1\<close> (each call returns normally): following \<^verbatim>\<open>next\<close> from the head passes the unit
  nodes \<open>as\<close>, then the node \<open>t\<close>, and arrives at the zero node \<open>z\<close> (handler absent and
  next absent); no node occurs twice; \<open>t\<close> is the only node on the way for which
  \<^verbatim>\<open>isVoidMiddleware\<close> holds, it comes last and holds the no-op handler; and the handlers
  of the unit nodes, in chain order, are the registered units in registration order.
\<close>

theorem C5_chain_invariant:
  "\<exists>n H as t z.
     New_then_Use hs0 hs1 H0 = Some (Inr (Some n, H)) \<and>
     path H n (as @ [t]) z \<and> z < length H \<and> H ! z = zero_middleware \<and>
     distinct (as @ [t, z]) \<and>
     filter (\<lambda>a. isVoidMiddleware H (Some a) = Inr True) (as @ [t]) = [t] \<and>
     handler (H ! t) = Some noop \<and>
     handlers_at H as = hs0 @ hs1"
proof -
  from New_then_Use_chain[of hs0 hs1 H0] obtain n H as t z where
    r: "New_then_Use hs0 hs1 H0 = Some (Inr (Some n, H))"
    and c: "chain H n as t z" and h: "handlers_at H as = hs0 @ hs1" by blast
  have "path H n (as @ [t]) z" using c by (simp add: chain_def path_snoc)
  moreover have "z < length H" "H ! z = zero_middleware" "distinct (as @ [t, z])"
    "handler (H ! t) = Some noop" using c by (simp_all add: chain_def)
  ultimately show ?thesis using r h chain_one_terminal[OF c] by blast
qed

theorem C5_chain_invariant_witness:
  "\<exists>n H as t z.
     New_then_Use [(logging 1 :: (responseWriter \<times> token list) Handler), None] [logging 2] [] = Some (Inr (Some n, H)) \<and>
     path H n (as @ [t]) z \<and> z < length H \<and> H ! z = zero_middleware \<and>
     distinct (as @ [t, z]) \<and>
     filter (\<lambda>a. isVoidMiddleware H (Some a) = Inr True) (as @ [t]) = [t] \<and>
     handler (H ! t) = Some noop \<and>
     handlers_at H as = [logging 1, None] @ [logging 2]"
  by (rule C5_chain_invariant)

subsection \<open>Enumeration\<close>

text \<open>
  C6. On a stack made by \<^verbatim>\<open>New\<close> from \<open>hs0\<close> and extended by \<^verbatim>\<open>Use\<close> with each unit of
  \<open>hs1\<close> (for \<open>hs0 = []\<close>: by that many register calls alone), \<^verbatim>\<open>Handlers\<close> returns
  normally a slice whose elements are exactly \<open>hs0 @ hs1\<close>, in this order, and whose
  length is the number of registered units, whatever the growth policy of \<^verbatim>\<open>append\<close> and
  the arrays already allocated. On the stack \<^verbatim>\<open>New()\<close> it returns the nil slice, the
  empty sequence.
\<close>

theorem C6_Handlers_lists_units:
  "(\<exists>n H sl A'.
      New_then_Use hs0 hs1 H0 = Some (Inr (n, H)) \<and>
      Handlers grow H A n = Some (Inr (sl, H, A')) \<and>
      slice_elems A' sl = hs0 @ hs1 \<and> len sl = length hs0 + length hs1) \<and>
   (\<exists>n H. New [] H1 = (n, H) \<and> Handlers grow H A n = Some (Inr (nil_slice, H, A)) \<and>
      slice_elems A nil_slice = [])"
proof -
  from New_then_Use_chain[of hs0 hs1 H0] obtain n H as t z where
    r: "New_then_Use hs0 hs1 H0 = Some (Inr (Some n, H))"
    and c: "chain H n as t z" and h: "handlers_at H as = hs0 @ hs1" by blast
  from Handlers_chain[OF c, of grow A] obtain sl A' where
    g: "Handlers grow H A (Some n) = Some (Inr (sl, H, A'))" and i: "slice_inv A A' sl"
    and e: "slice_elems A' sl = handlers_at H as" by blast
  have "len sl = length hs0 + length hs1" using slice_inv_len[OF i] e h by simp
  then have A: "\<exists>n H sl A'.
      New_then_Use hs0 hs1 H0 = Some (Inr (n, H)) \<and>
      Handlers grow H A n = Some (Inr (sl, H, A')) \<and>
      slice_elems A' sl = hs0 @ hs1 \<and> len sl = length hs0 + length hs1"
    using r g e h by (intro exI[of _ "Some n"] exI[of _ H] exI[of _ sl] exI[of _ A']) simp
  from New_chain[of "[]" H1] obtain m G bs u y where
    q: "New [] H1 = (Some m, G)" and d: "chain G m bs u y" and k: "handlers_at G bs = []"
    by blast
  from k have "bs = []" by (simp add: handlers_at_def)
  then have "Handlers grow G A (Some m) = Some (Inr (nil_slice, G, A))"
    using Handlers_empty[of G m u y grow A] d by simp
  then have B: "\<exists>n H. New [] H1 = (n, H) \<and> Handlers grow H A n = Some (Inr (nil_slice, H, A)) \<and>
      slice_elems A nil_slice = []"
    using q by (simp add: slice_elems_def nil_slice_def)
  from A B show ?thesis by blast
qed

theorem C6_Handlers_lists_units_witness:
  "(\<exists>n H sl A'.
      New_then_Use [] [(logging 1 :: (responseWriter \<times> token list) Handler), None, logging 2] [] = Some (Inr (n, H)) \<and>
      Handlers (\<lambda>c. 2 * c) H [] n = Some (Inr (sl, H, A')) \<and>
      slice_elems A' sl = [logging 1, None, logging 2] \<and> len sl = 3) \<and>
   (\<exists>n H. New [] ([] :: (responseWriter \<times> token list) heap) = (n, H) \<and>
      Handlers (\<lambda>c. 2 * c) H [] n = Some (Inr (nil_slice, H, [])) \<and>
      slice_elems ([] :: (responseWriter \<times> token list) arrays) nil_slice = [])"
  using C6_Handlers_lists_units[of "[]" "[(logging 1 :: (responseWriter \<times> token list) Handler), None, logging 2]" "[]" "\<lambda>c. 2 * c" "[]" "[]"]
  by (simp add: numeral_3_eq_3)

subsection \<open>The response wrapper\<close>

text \<open>
  C7, as stated, on the stack of two units of which the first writes the one-byte body
  \<open>''x''\<close> and the second writes the status 400 and then the five-byte body \<open>''hello''\<close>:
  serving a request returns the wrapper with observed status 200 and observed size 6.
\<close>

theorem C7_counterexample:
  "New_then_Use [] [writing_body ''x'', writing 400 ''hello''] [] =
     Some (Inr (Some 1,
       [zero_middleware,
        \<lparr>handler = writing_body ''x'', nextp = Some 4\<rparr>,
        zero_middleware,
        \<lparr>handler = Some noop, nextp = Some 2\<rparr>,
        \<lparr>handler = writing 400 ''hello'', nextp = Some 3\<rparr>])) \<and>
   Negroni_ServeHTTP 3
       [zero_middleware,
        \<lparr>handler = writing_body ''x'', nextp = Some 4\<rparr>,
        zero_middleware,
        \<lparr>handler = Some noop, nextp = Some 2\<rparr>,
        \<lparr>handler = writing 400 ''hello'', nextp = Some 3\<rparr>] (Some 1) [] () =
     Some (Inr (\<lparr>ResponseWriter = [Sink_Write ''x'', Sink_WriteHeader 400, Sink_Write ''hello''],
                  rw_status = Some 200, rw_size = 6\<rparr>, ()))"
  by (simp add: New_then_Use_def New_def Use_def appendMiddleware_def appendMiddleware_loop.simps
      voidMiddleware_def alloc_def isVoidMiddleware_def deref_def store_handler_def store_next_def
      zero_middleware_def Negroni_ServeHTTP_def eval_nat_numeral writing_def writing_body_def
      NewResponseWriter_def Write_def WriteHeader_def noop_def)

text \<open>
  C7, amended. When the unit that writes the status 400 and then the body \<open>b\<close> is the only
  unit that writes to the wrapper (the units before and after it, in any number, log
  their tokens and call their continuations), serving a request returns the wrapper
  \<open>Write b (WriteHeader 400 (NewResponseWriter rw))\<close>, whose observed status is 400 and
  whose observed size is the length of \<open>b\<close> (5 for a five-byte body). A body write
  on a wrapper with no status recorded records the status 200; every body write adds the
  length of the body to the size and forwards the bytes unchanged to the sink.
\<close>

theorem C7_response_wrapper:
  "(\<exists>n H.
      New_then_Use (take j (map logging ids0 @ writing 400 b # map logging ids1))
                   (drop j (map logging ids0 @ writing 400 b # map logging ids1)) H0 =
        Some (Inr (n, H)) \<and>
      (\<forall>k. Negroni_ServeHTTP (Suc (Suc (length ids0 + length ids1 + k))) H n rw l =
             Some (Inr (Write b (WriteHeader 400 (NewResponseWriter rw)),
                        l @ map Enter (ids0 @ ids1) @ map Exit (rev (ids0 @ ids1)))))) \<and>
   Status (Write b (WriteHeader 400 (NewResponseWriter rw))) = Some 400 \<and>
   Size (Write b (WriteHeader 400 (NewResponseWriter rw))) = length b \<and>
   Status (Write b (NewResponseWriter rw)) = Some 200 \<and>
   Status (Write b (w\<lparr>rw_status := None\<rparr>)) = Some 200 \<and>
   Size (Write b w) = Size w + length b \<and>
   ResponseWriter (Write b w) = ResponseWriter w @ [Sink_Write b]"
proof -
  let ?units = "map logging ids0 @ writing 400 b # map logging ids1"
  from New_then_Use_split[of j ?units H0] obtain n H as t z where
    r: "New_then_Use (take j ?units) (drop j ?units) H0 = Some (Inr (Some n, H))"
    and c: "chain H n as t z" and h: "handlers_at H as = ?units" by blast
  have "Negroni_ServeHTTP (Suc (Suc (length ids0 + length ids1 + k))) H (Some n) rw l =
          Some (Inr (Write b (WriteHeader 400 (NewResponseWriter rw)),
                     l @ map Enter (ids0 @ ids1) @ map Exit (rev (ids0 @ ids1))))" for k
    unfolding Negroni_serve_chain[OF c] h by (rule serve_units_writing)
  then have A: "\<exists>n H.
      New_then_Use (take j ?units) (drop j ?units) H0 = Some (Inr (n, H)) \<and>
      (\<forall>k. Negroni_ServeHTTP (Suc (Suc (length ids0 + length ids1 + k))) H n rw l =
             Some (Inr (Write b (WriteHeader 400 (NewResponseWriter rw)),
                        l @ map Enter (ids0 @ ids1) @ map Exit (rev (ids0 @ ids1)))))"
    using r by blast
  have B: "Status (Write b (WriteHeader 400 (NewResponseWriter rw))) = Some 400"
    "Size (Write b (WriteHeader 400 (NewResponseWriter rw))) = length b"
    "Status (Write b (NewResponseWriter rw)) = Some 200"
    "Status (Write b (w\<lparr>rw_status := None\<rparr>)) = Some 200"
    by (simp_all add: Status_def Size_def Write_def WriteHeader_def NewResponseWriter_def)
  have C: "Size (Write b w) = Size w + length b"
    "ResponseWriter (Write b w) = ResponseWriter w @ [Sink_Write b]"
    by (simp_all add: Size_def Write_def Let_def split: option.splits)
  from A B C show ?thesis by (intro conjI)
qed

theorem C7_response_wrapper_witness:
  "(\<exists>n H.
      New_then_Use [logging 1] [writing 400 ''hello'', logging 2] [] = Some (Inr (n, H)) \<and>
      (\<forall>k. Negroni_ServeHTTP (Suc (Suc (Suc (Suc k)))) H n [] [] =
             Some (Inr (Write ''hello'' (WriteHeader 400 (NewResponseWriter [])),
                        [Enter 1, Enter 2, Exit 2, Exit 1])))) \<and>
   Status (Write ''hello'' (WriteHeader 400 (NewResponseWriter []))) = Some 400 \<and>
   Size (Write ''hello'' (WriteHeader 400 (NewResponseWriter []))) = 5 \<and>
   Status (Write ''hello'' (NewResponseWriter [])) = Some 200 \<and>
   Size (Write ''hello'' (NewResponseWriter [])) = 5 \<and>
   ResponseWriter (Write ''hello'' (NewResponseWriter [])) = [Sink_Write ''hello'']"
  using C7_response_wrapper[of 1 "[1]" "''hello''" "[2]" "[]" "[]" "[]" "NewResponseWriter []"]
  by (simp add: Size_def NewResponseWriter_def)

subsection \<open>Registration does not validate\<close>



subsection \<open>Handlers is read-only\<close>

text \<open>
  C9. On every stack made by \<^verbatim>\<open>New\<close> and \<^verbatim>\<open>Use\<close>, \<^verbatim>\<open>Handlers\<close> returns normally and hands
  back the heap of nodes it was given: no handler and no \<^verbatim>\<open>next\<close> field has changed. The
  arrays that existed before the call are as they were, and the returned slice is nil
  or points into an array allocated during the call. Any later call on the same heap,
  whatever has happened to the arrays in between (nothing, or any writes through the
  slice returned earlier) and whatever the growth policy, returns a slice with the same
  elements, again in an array allocated during that call.
\<close>

theorem C9_Handlers_read_only:
  "\<exists>n H sl A1.
     New_then_Use hs0 hs1 H0 = Some (Inr (n, H)) \<and>
     Handlers grow H A n = Some (Inr (sl, H, A1)) \<and>
     take (length A) A1 = A \<and>
     (case arr sl of None \<Rightarrow> True | Some b \<Rightarrow> length A \<le> b \<and> b < length A1) \<and>
     (\<forall>grow' A2. \<exists>sl2 A3.
        Handlers grow' H A2 n = Some (Inr (sl2, H, A3)) \<and>
        slice_elems A3 sl2 = slice_elems A1 sl \<and>
        take (length A2) A3 = A2 \<and>
        (case arr sl2 of None \<Rightarrow> True | Some b \<Rightarrow> length A2 \<le> b \<and> b < length A3))"
proof -
  from New_then_Use_chain[of hs0 hs1 H0] obtain n H as t z where
    r: "New_then_Use hs0 hs1 H0 = Some (Inr (Some n, H))"
    and c: "chain H n as t z" by blast
  from Handlers_chain[OF c, of grow A] obtain sl A1 where
    g: "Handlers grow H A (Some n) = Some (Inr (sl, H, A1))" and i: "slice_inv A A1 sl"
    and e: "slice_elems A1 sl = handlers_at H as" by blast
  have "\<exists>sl2 A3.
        Handlers grow' H A2 (Some n) = Some (Inr (sl2, H, A3)) \<and>
        slice_elems A3 sl2 = slice_elems A1 sl \<and>
        take (length A2) A3 = A2 \<and>
        (case arr sl2 of None \<Rightarrow> True | Some b \<Rightarrow> length A2 \<le> b \<and> b < length A3)"
    for grow' A2
  proof -
    from Handlers_chain[OF c, of grow' A2] obtain sl2 A3 where
      "Handlers grow' H A2 (Some n) = Some (Inr (sl2, H, A3))" "slice_inv A2 A3 sl2"
      "slice_elems A3 sl2 = handlers_at H as" by blast
    then show ?thesis using e slice_inv_fresh[of A2 A3 sl2] by auto
  qed
  then show ?thesis using r g slice_inv_fresh[OF i] by blast
qed

theorem C9_Handlers_read_only_witness:
  "\<exists>n H sl A1.
     New_then_Use [(logging 1 :: (responseWriter \<times> token list) Handler)] [None] [] = Some (Inr (n, H)) \<and>
     Handlers (\<lambda>c. 2 * c) H [] n = Some (Inr (sl, H, A1)) \<and>
     take (length ([] :: (responseWriter \<times> token list) arrays)) A1 = [] \<and>
     (case arr sl of None \<Rightarrow> True
      | Some b \<Rightarrow> length ([] :: (responseWriter \<times> token list) arrays) \<le> b \<and> b < length A1) \<and>
     (\<forall>grow' A2. \<exists>sl2 A3.
        Handlers grow' H A2 n = Some (Inr (sl2, H, A3)) \<and>
        slice_elems A3 sl2 = slice_elems A1 sl \<and>
        take (length A2) A3 = A2 \<and>
        (case arr sl2 of None \<Rightarrow> True | Some b \<Rightarrow> length A2 \<le> b \<and> b < length A3))"
  by (rule C9_Handlers_read_only)

subsection \<open>The walks dereference no nil pointer\<close>

text \<open>
  C10. \<^verbatim>\<open>isVoidMiddleware(nil)\<close> is false. On every stack made by \<^verbatim>\<open>New\<close> and \<^verbatim>\<open>Use\<close>, every
  value the loop variable takes in the walks of \<^verbatim>\<open>Handlers\<close> and \<^verbatim>\<open>appendMiddleware\<close> is a
  non-nil pointer to a node whose \<^verbatim>\<open>next\<close> is non-nil and points at a node, so that the
  test \<^verbatim>\<open>isVoidMiddleware\<close> and the step \<^verbatim>\<open>curr = curr.next\<close> dereference no nil pointer;
  both walks terminate, and \<^verbatim>\<open>Handlers\<close> and \<^verbatim>\<open>appendMiddleware\<close> return normally.
\<close>

theorem C10_walks_never_dereference_nil:
  "isVoidMiddleware H1 None = Inr False \<and>
   (\<exists>n H.
      New_then_Use hs0 hs1 H0 = Some (Inr (n, H)) \<and>
      (\<forall>cur. visits H n cur \<longrightarrow>
         (\<exists>m nx. deref H cur = Inr m \<and> nextp m \<noteq> None \<and> deref H (nextp m) = Inr nx)) \<and>
      (\<exists>res. Handlers grow H A n = Some (Inr res)) \<and>
      (\<exists>pre cur. appendMiddleware_loop H None n = Some (Inr (pre, cur))) \<and>
      (\<exists>H'. appendMiddleware H n h = Some (Inr H')))"
proof -
  from New_then_Use_chain[of hs0 hs1 H0] obtain n H as t z where
    r: "New_then_Use hs0 hs1 H0 = Some (Inr (Some n, H))"
    and c: "chain H n as t z" by blast
  have v: "\<exists>m nx. deref H cur = Inr m \<and> nextp m \<noteq> None \<and> deref H (nextp m) = Inr nx"
    if "visits H (Some n) cur" for cur
    using visits_chain[OF that c] chain_node_next[OF c] by blast
  from Handlers_chain[OF c, of grow A] have hd: "\<exists>res. Handlers grow H A (Some n) = Some (Inr res)"
    by blast
  have lp: "\<exists>pre cur. appendMiddleware_loop H None (Some n) = Some (Inr (pre, cur))"
    using chain_loop[OF c] by blast
  from append_chain[OF c, of h] have ap: "\<exists>H'. appendMiddleware H (Some n) h = Some (Inr H')"
    by blast
  have "isVoidMiddleware H1 None = Inr False" by (simp add: isVoidMiddleware_def)
  then show ?thesis using r v hd lp ap by blast
qed

theorem C10_walks_never_dereference_nil_witness:
  "isVoidMiddleware ([] :: unit heap) None = Inr False \<and>
   (\<exists>n H.
      New_then_Use [(logging 1 :: (responseWriter \<times> token list) Handler)] [None] [] = Some (Inr (n, H)) \<and>
      (\<forall>cur. visits H n cur \<longrightarrow>
         (\<exists>m nx. deref H cur = Inr m \<and> nextp m \<noteq> None \<and> deref H (nextp m) = Inr nx)) \<and>
      (\<exists>res. Handlers (\<lambda>c. 2 * c) H [] n = Some (Inr res)) \<and>
      (\<exists>pre cur. appendMiddleware_loop H None n = Some (Inr (pre, cur))) \<and>
      (\<exists>H'. appendMiddleware H n None = Some (Inr H')))"
  by (rule C10_walks_never_dereference_nil)

end
